theory Spec2Isabelle
  imports Main "HOL-Library.Sublist"
begin

section \<open>Glob utilities of graphite-datadog (glob\_utils.py)\<close>

text \<open>
  Python strings are modelled as \<open>string\<close> (lists of characters), Python integers
  as \<open>int\<close>. A raised exception is a value of the type \<open>error\<close>, and a function that
  may raise returns \<open>error + 'a\<close> with \<open>Inl\<close> for the exception.
\<close>

abbreviation BACKSLASH :: char where "BACKSLASH \<equiv> CHR 0x5C"
abbreviation NEWLINE :: char where "NEWLINE \<equiv> CHR 0x0A"

datatype error =
  UnexpectedCharacter char
| UnexpectedTokenType
| TypeError
| IndexError

subsection \<open>The structural validator\<close>

text \<open>
  \<open>_is_valid_glob\<close>: the \<open>for\<close> loop over the characters with the running \<open>depth\<close>.
  The two early \<open>return False\<close> statements end the recursion.
\<close>

fun valid_loop :: "int \<Rightarrow> string \<Rightarrow> bool" where
  "valid_loop depth [] = (depth = 0)"
| "valid_loop depth (c # cs) =
     (if c = CHR ''{'' then valid_loop (depth + 1) cs
      else if c = CHR ''}'' then
        (if depth - 1 < 0 then False else valid_loop (depth - 1) cs)
      else if c = CHR ''.'' then
        (if depth > 0 then False else valid_loop depth cs)
      else valid_loop depth cs)"

definition is_valid_glob :: "string \<Rightarrow> bool" where
  "is_valid_glob glob = valid_loop 0 glob"

text \<open>
  The validator as the specification words it, for comparison with the loop: the brace
  depth of a text is the number of its opening braces minus the number of its closing
  braces; the depth never goes negative on a prefix, it is zero at the end, and no dot
  is read while the depth is positive.
\<close>

definition brace_depth :: "string \<Rightarrow> int" where
  "brace_depth s = int (count_list s (CHR ''{'')) - int (count_list s (CHR ''}''))"

definition spec_valid :: "string \<Rightarrow> bool" where
  "spec_valid glob \<longleftrightarrow>
     (\<forall>p. prefix p glob \<longrightarrow> 0 \<le> brace_depth p) \<and>
     brace_depth glob = 0 \<and>
     (\<forall>p. prefix (p @ ''.'') glob \<longrightarrow> \<not> 0 < brace_depth p)"

subsection \<open>Tokens and the tokenizer\<close>

datatype TokenType =
  PATH_SEPARATOR
| LITERAL
| WILD_CHAR
| WILD_SEQUENCE
| WILD_PATH
| CHAR_SELECT_BEGIN
| CHAR_SELECT_NEGATED_BEGIN
| CHAR_SELECT_RANGE_DASH
| CHAR_SELECT_END
| EXPR_SELECT_BEGIN
| EXPR_SELECT_SEPARATOR
| EXPR_SELECT_END

text \<open>
  A token is the pair the generator yields. Its first component is an enum constant or
  the value of the variable \<open>token\<close>, which holds \<open>None\<close> or a kind; its second
  component is a string or \<open>None\<close> (line 105 yields \<open>token, None\<close>).
\<close>

type_synonym token = "TokenType option \<times> string option"

definition SPECIAL_CHARS :: string where
  "SPECIAL_CHARS = ''.?*[-]{,}''"

text \<open>
  \<open>emit t r\<close> is a \<open>yield\<close> of \<open>t\<close> followed by the rest \<open>r\<close> of the generator's run; an
  exception raised later is what a consumer of the whole stream sees.
\<close>

definition emit :: "token \<Rightarrow> error + token list \<Rightarrow> error + token list" where
  "emit t r = (case r of Inl e \<Rightarrow> Inl e | Inr ts \<Rightarrow> Inr (t # ts))"

text \<open>
  Line 110: a pending token is yielded with \<open>tmp\<close> and \<open>token, tmp\<close> are reset; with no
  pending token nothing is yielded and \<open>tmp\<close> keeps its value.
\<close>

definition flush :: "TokenType option \<Rightarrow> string \<Rightarrow> error + token list \<Rightarrow> error + token list" where
  "flush token tmp r = (case token of Some t \<Rightarrow> emit (token, Some tmp) r | None \<Rightarrow> r)"

definition flushed :: "TokenType option \<Rightarrow> string \<Rightarrow> string" where
  "flushed token tmp = (case token of Some t \<Rightarrow> [] | None \<Rightarrow> tmp)"

text \<open>
  The \<open>while\<close> loop of \<open>tokenize\<close>. The arguments are the loop's variables
  \<open>is_escaped\<close>, \<open>is_char_select\<close>, \<open>tmp\<close>, \<open>token\<close> (\<open>None\<close> or a token kind) and the
  characters \<open>glob[i+1:]\<close> still to be read. Enum members are truthy, so \<open>if token\<close> and
  \<open>elif token\<close> test \<open>token\<close> against \<open>None\<close>. The two look-aheads read \<open>glob[i + 1]\<close>
  and skip it.
\<close>

fun tok_loop :: "bool \<Rightarrow> bool \<Rightarrow> string \<Rightarrow> TokenType option \<Rightarrow> string \<Rightarrow> error + token list" where
  "tok_loop is_escaped is_char_select tmp token [] =
     (case token of Some t \<Rightarrow> Inr [(token, Some tmp)] | None \<Rightarrow> Inr [])"
| "tok_loop is_escaped is_char_select tmp token (c # cs) =
     (if is_escaped then tok_loop False is_char_select (tmp @ [c]) token cs
      else if c = BACKSLASH then tok_loop True is_char_select tmp token cs
      else if c \<notin> set SPECIAL_CHARS \<or> (c = CHR ''-'' \<and> \<not> is_char_select) then
        (case token of
           None \<Rightarrow> tok_loop False is_char_select (tmp @ [c]) (Some LITERAL) cs
         | Some t \<Rightarrow>
             if t \<noteq> LITERAL
             then emit (token, None) (tok_loop False is_char_select ([] @ [c]) (Some LITERAL) cs)
             else tok_loop False is_char_select (tmp @ [c]) (Some LITERAL) cs)
      else
        flush token tmp
          (if c = CHR ''.'' then
             emit (Some PATH_SEPARATOR, Some [])
               (tok_loop False is_char_select (flushed token tmp) None cs)
           else if c = CHR ''?'' then
             emit (Some WILD_CHAR, Some [])
               (tok_loop False is_char_select (flushed token tmp) None cs)
           else if c = CHR ''*'' then
             (case cs of
                [] \<Rightarrow> emit (Some WILD_SEQUENCE, Some [])
                        (tok_loop False is_char_select (flushed token tmp) None cs)
              | d # ds \<Rightarrow>
                  if d = CHR ''*''
                  then emit (Some WILD_PATH, Some [])
                         (tok_loop False is_char_select (flushed token tmp) None ds)
                  else emit (Some WILD_SEQUENCE, Some [])
                         (tok_loop False is_char_select (flushed token tmp) None cs))
           else if c = CHR ''['' then
             (case cs of
                [] \<Rightarrow> emit (Some CHAR_SELECT_BEGIN, Some [])
                        (tok_loop False True (flushed token tmp) None cs)
              | d # ds \<Rightarrow>
                  if d = CHR ''!''
                  then emit (Some CHAR_SELECT_NEGATED_BEGIN, Some [])
                         (tok_loop False True (flushed token tmp) None ds)
                  else emit (Some CHAR_SELECT_BEGIN, Some [])
                         (tok_loop False True (flushed token tmp) None cs))
           else if c = CHR ''-'' then
             emit (Some CHAR_SELECT_RANGE_DASH, Some [])
               (tok_loop False is_char_select (flushed token tmp) None cs)
           else if c = CHR '']'' then
             emit (Some CHAR_SELECT_END, Some [])
               (tok_loop False False (flushed token tmp) None cs)
           else if c = CHR ''{'' then
             emit (Some EXPR_SELECT_BEGIN, Some [])
               (tok_loop False is_char_select (flushed token tmp) None cs)
           else if c = CHR '','' then
             emit (Some EXPR_SELECT_SEPARATOR, Some [])
               (tok_loop False is_char_select (flushed token tmp) None cs)
           else if c = CHR ''}'' then
             emit (Some EXPR_SELECT_END, Some [])
               (tok_loop False is_char_select (flushed token tmp) None cs)
           else Inl (UnexpectedCharacter c)))"

definition tokenize :: "string \<Rightarrow> error + token list" where
  "tokenize glob = tok_loop False False [] None glob"

subsection \<open>The regex compiler\<close>

text \<open>
  \<open>re.escape\<close> belongs to Python's standard library, not to this repository. It is
  modelled as Python 3.7 and later define it: a backslash is put before each of the
  characters \<open>()[]{}?*+-|^$\.&~#\<close>, space, tab, newline, carriage return, vertical tab
  and form feed, and every other character is kept. (Earlier versions put a backslash
  before more characters; a backslash before a character that is no letter and no
  digit stands for that character in every version.)
\<close>

definition escape_special :: string where
  "escape_special =
     ''()[]{}?*+-|^$'' @ [BACKSLASH] @ ''.&~# '' @
     [CHR 0x09, CHR 0x0A, CHR 0x0D, CHR 0x0B, CHR 0x0C]"

definition escape_char :: "char \<Rightarrow> string" where
  "escape_char c = (if c \<in> set escape_special then [BACKSLASH, c] else [c])"

definition re_escape :: "string \<Rightarrow> string" where
  "re_escape s = concat (map escape_char s)"

text \<open>
  One pass of the \<open>for\<close> loop of \<open>glob_to_regex\<close>: the text a token adds to \<open>ans\<close>.
  \<open>re.escape(None)\<close> raises \<open>TypeError\<close>. A first component \<open>None\<close> equals none of the
  twelve kinds and reaches the final \<open>else\<close> of the chain, which raises.
\<close>

fun token_regex :: "token \<Rightarrow> error + string" where
  "token_regex (Some PATH_SEPARATOR, data) = Inr (re_escape ''.'')"
| "token_regex (Some LITERAL, data) =
     (case data of None \<Rightarrow> Inl TypeError | Some text \<Rightarrow> Inr (re_escape text))"
| "token_regex (Some WILD_CHAR, data) = Inr ''.''"
| "token_regex (Some WILD_SEQUENCE, data) = Inr ''[^.]*''"
| "token_regex (Some WILD_PATH, data) = Inr ''.*''"
| "token_regex (Some CHAR_SELECT_BEGIN, data) = Inr ''[''"
| "token_regex (Some CHAR_SELECT_NEGATED_BEGIN, data) = Inr ''[^''"
| "token_regex (Some CHAR_SELECT_RANGE_DASH, data) = Inr ''-''"
| "token_regex (Some CHAR_SELECT_END, data) = Inr '']''"
| "token_regex (Some EXPR_SELECT_BEGIN, data) = Inr ''(''"
| "token_regex (Some EXPR_SELECT_SEPARATOR, data) = Inr ''|''"
| "token_regex (Some EXPR_SELECT_END, data) = Inr '')''"
| "token_regex (None, data) = Inl UnexpectedTokenType"

fun regex_loop :: "string \<Rightarrow> token list \<Rightarrow> error + string" where
  "regex_loop ans [] = Inr ans"
| "regex_loop ans (t # ts) =
     (case token_regex t of Inl e \<Rightarrow> Inl e | Inr r \<Rightarrow> regex_loop (ans @ r) ts)"

definition glob_to_regex :: "string \<Rightarrow> error + string" where
  "glob_to_regex glob =
     (case tokenize glob of
        Inl e \<Rightarrow> Inl e
      | Inr tokens \<Rightarrow>
          (case regex_loop [] tokens of
             Inl e \<Rightarrow> Inl e
           | Inr ans \<Rightarrow> Inr (''^'' @ ans @ ''$'')))"

subsection \<open>Python's regular expressions, for the syntax used here\<close>

text \<open>
  \<open>re.compile\<close> and \<open>match\<close> belong to Python's standard library. They are modelled for
  the part of the syntax that the claims need: a sequence of one-character atoms (a
  character, a backslash before a character that is no ASCII letter or digit, the dot,
  a negated class \<open>[^...]\<close> of single characters), each followed by \<open>*\<close>, by \<open>+\<close>
  or by nothing, after an optional \<open>^\<close> and before an optional final \<open>$\<close>. A pattern
  outside this part (groups, alternation, positive classes, ranges, other quantifiers)
  gets \<open>None\<close> from the parser. As in Python, the dot matches every character but the
  newline, a negated class matches every character that is not a member, and \<open>$\<close>
  matches at the end of the string and before a newline that ends the string.
\<close>

datatype atom = Lit char | Dot | NotIn "char list"

datatype ritem = One atom | Star atom | Plus atom | Eol

definition is_alnum :: "char \<Rightarrow> bool" where
  "is_alnum c \<longleftrightarrow>
     c \<in> set ''abcdefghijklmnopqrstuvwxyzABCDEFGHIJKLMNOPQRSTUVWXYZ0123456789''"

definition regex_special :: string where
  "regex_special = ''.^$*+?{}[]|()'' @ [BACKSLASH]"

text \<open>The members of a class, read after \<open>[^\<close> up to the closing bracket.\<close>

fun parse_class :: "string \<Rightarrow> (char list \<times> string) option" where
  "parse_class [] = None"
| "parse_class (c # cs) =
     (if c = CHR '']'' then Some ([], cs)
      else if c = BACKSLASH then
        (case cs of
           [] \<Rightarrow> None
         | d # ds \<Rightarrow>
             if is_alnum d then None
             else (case parse_class ds of
                     None \<Rightarrow> None
                   | Some (members, rest) \<Rightarrow> Some (d # members, rest)))
      else if c \<in> set ''[-&~|'' then None
      else (case parse_class cs of
              None \<Rightarrow> None
            | Some (members, rest) \<Rightarrow> Some (c # members, rest)))"

fun parse_atom :: "string \<Rightarrow> (atom \<times> string) option" where
  "parse_atom [] = None"
| "parse_atom (c # cs) =
     (if c = BACKSLASH then
        (case cs of
           [] \<Rightarrow> None
         | d # ds \<Rightarrow> if is_alnum d then None else Some (Lit d, ds))
      else if c = CHR ''.'' then Some (Dot, cs)
      else if c = CHR ''['' then
        (case cs of
           [] \<Rightarrow> None
         | d # ds \<Rightarrow>
             if d = CHR ''^'' then
               (case parse_class ds of
                  None \<Rightarrow> None
                | Some (members, rest) \<Rightarrow>
                    if members = [] then None else Some (NotIn members, rest))
             else None)
      else if c \<in> set regex_special then None
      else Some (Lit c, cs))"

function re_items :: "string \<Rightarrow> ritem list option" where
  "re_items [] = Some []"
| "re_items (c # cs) =
     (if c = CHR ''$'' \<and> cs = [] then Some [Eol]
      else (case parse_atom (c # cs) of
              None \<Rightarrow> None
            | Some (a, rest) \<Rightarrow>
                (case rest of
                   [] \<Rightarrow> Some [One a]
                 | q # rest' \<Rightarrow>
                     if q = CHR ''*'' then map_option ((#) (Star a)) (re_items rest')
                     else if q = CHR ''+'' then map_option ((#) (Plus a)) (re_items rest')
                     else map_option ((#) (One a)) (re_items rest))))"
  by pat_completeness auto
termination
proof -
  have class_shorter: "parse_class s = Some (m, rest) \<Longrightarrow> length rest < length s"
    for s m rest
    by (induction s arbitrary: m rest rule: parse_class.induct)
       (fastforce split: if_splits list.splits option.splits)+
  have atom_shorter: "parse_atom s = Some (a, rest) \<Longrightarrow> length rest < length s"
    for s a rest
    by (cases s) (auto split: if_splits list.splits option.splits dest: class_shorter)
  show ?thesis
    by (relation "measure length")
       (auto dest!: atom_shorter simp del: parse_atom.simps)
qed

definition re_compile :: "string \<Rightarrow> ritem list option" where
  "re_compile r =
     (case r of
        [] \<Rightarrow> re_items r
      | c # cs \<Rightarrow> if c = CHR ''^'' then re_items cs else re_items r)"

fun atom_match :: "atom \<Rightarrow> char \<Rightarrow> bool" where
  "atom_match (Lit c) x = (x = c)"
| "atom_match Dot x = (x \<noteq> NEWLINE)"
| "atom_match (NotIn members) x = (x \<notin> set members)"

text \<open>
  \<open>rmatch items s\<close>: the items match a prefix of \<open>s\<close>, which is when \<open>match\<close> returns a
  match object (it looks for a match at the start of the string, not for one that
  ends where the string ends).
\<close>

fun rmatch :: "ritem list \<Rightarrow> string \<Rightarrow> bool" where
  "rmatch [] s = True"
| "rmatch (Eol # r) s = ((s = [] \<or> s = [NEWLINE]) \<and> rmatch r [])"
| "rmatch (One a # r) [] = False"
| "rmatch (One a # r) (x # xs) = (atom_match a x \<and> rmatch r xs)"
| "rmatch (Star a # r) [] = rmatch r []"
| "rmatch (Star a # r) (x # xs) =
     (rmatch r (x # xs) \<or> (atom_match a x \<and> rmatch (Star a # r) xs))"
| "rmatch (Plus a # r) [] = False"
| "rmatch (Plus a # r) (x # xs) = (atom_match a x \<and> rmatch (Star a # r) xs)"

text \<open>\<open>re_match r s\<close> is \<open>re.compile(r).match(s) is not None\<close>.\<close>

definition re_match :: "string \<Rightarrow> string \<Rightarrow> bool option" where
  "re_match r s = map_option (\<lambda>items. rmatch items s) (re_compile r)"

subsection \<open>The plain-literal predicate\<close>

text \<open>The pattern \<open>^[^*?{}\[\]]+$\<close> of line 19.\<close>

definition GRAPHITE_GLOB_RE :: string where
  "GRAPHITE_GLOB_RE = ''^[^*?{}'' @ [BACKSLASH] @ ''['' @ [BACKSLASH] @ '']]+$''"

text \<open>
  \<open>_is_graphite_glob\<close>: the match is \<open>None\<close>. (The pattern is in the modelled syntax,
  so \<open>re_match\<close> gives \<open>Some\<close> of a truth value here.)
\<close>

definition is_graphite_glob :: "string \<Rightarrow> bool" where
  "is_graphite_glob metric_component \<longleftrightarrow>
     re_match GRAPHITE_GLOB_RE metric_component = Some False"

subsection \<open>The prefilter\<close>

text \<open>\<open>s.split(sep)\<close> for a separator of one character.\<close>

fun py_split :: "char \<Rightarrow> string \<Rightarrow> string list" where
  "py_split sep [] = [[]]"
| "py_split sep (c # cs) =
     (if c = sep then [] # py_split sep cs
      else (case py_split sep cs of
              [] \<Rightarrow> [[c]]
            | w # ws \<Rightarrow> (c # w) # ws))"

fun enumerate :: "int \<Rightarrow> 'a list \<Rightarrow> (int \<times> 'a) list" where
  "enumerate i [] = []"
| "enumerate i (x # xs) = (i, x) # enumerate (i + 1) xs"

text \<open>\<open>xs[i]\<close> on a Python list: a negative index counts from the end.\<close>

definition py_index :: "'a list \<Rightarrow> int \<Rightarrow> error + 'a" where
  "py_index xs i =
     (if 0 \<le> i \<and> i < int (length xs) then Inr (xs ! nat i)
      else if i < 0 \<and> - int (length xs) \<le> i then Inr (xs ! nat (int (length xs) + i))
      else Inl IndexError)"

text \<open>Truth value of \<open>globstar\<close>, which holds \<open>None\<close> or an integer.\<close>

definition truthy :: "int option \<Rightarrow> bool" where
  "truthy g = (case g of None \<Rightarrow> False | Some i \<Rightarrow> i \<noteq> 0)"

text \<open>The three variables that the loop of lines 220 to 227 fills.\<close>

record prefilter_plan =
  globstar :: "int option"
  prefix_literals :: "(int \<times> string) list"
  suffix_literals :: "(int \<times> string) list"

fun scan_components :: "int \<Rightarrow> prefilter_plan \<Rightarrow> (int \<times> string) list \<Rightarrow> prefilter_plan" where
  "scan_components n pl [] = pl"
| "scan_components n pl ((index, component) # rest) =
     (if component = ''**'' then
        scan_components n (pl\<lparr>globstar := Some index\<rparr>) rest
      else if truthy (globstar pl) then
        scan_components n
          (pl\<lparr>suffix_literals := suffix_literals pl @ [(n - index, component)]\<rparr>) rest
      else if \<not> is_graphite_glob component then
        scan_components n
          (pl\<lparr>prefix_literals := prefix_literals pl @ [(index, component)]\<rparr>) rest
      else scan_components n pl rest)"

definition glob_plan :: "string list \<Rightarrow> prefilter_plan" where
  "glob_plan glob_components =
     scan_components (int (length glob_components))
       \<lparr>globstar = None, prefix_literals = [], suffix_literals = []\<rparr>
       (enumerate 0 glob_components)"

text \<open>The loop of lines 237 to 239 over the chained constraints.\<close>

fun check_literals :: "string list \<Rightarrow> (int \<times> string) list \<Rightarrow> error + bool" where
  "check_literals metric_components [] = Inr True"
| "check_literals metric_components ((index, v) # rest) =
     (case py_index metric_components index of
        Inl e \<Rightarrow> Inl e
      | Inr x \<Rightarrow> if x \<noteq> v then Inr False else check_literals metric_components rest)"

definition maybe_matched_prefilter ::
  "string list \<Rightarrow> prefilter_plan \<Rightarrow> string \<Rightarrow> error + bool" where
  "maybe_matched_prefilter glob_components pl metric =
     (let metric_components = py_split (CHR ''.'') metric in
      if truthy (globstar pl) then
        (if length metric_components < length glob_components then Inr False
         else check_literals metric_components (suffix_literals pl @ prefix_literals pl))
      else if length metric_components \<noteq> length glob_components then Inr False
      else check_literals metric_components (suffix_literals pl @ prefix_literals pl))"

text \<open>\<open>filter(f, xs)\<close>, consumed to its end: the first exception of \<open>f\<close> ends it.\<close>

fun py_filter :: "('a \<Rightarrow> error + bool) \<Rightarrow> 'a list \<Rightarrow> error + 'a list" where
  "py_filter f [] = Inr []"
| "py_filter f (x # xs) =
     (case f x of
        Inl e \<Rightarrow> Inl e
      | Inr keep \<Rightarrow>
          (case py_filter f xs of
             Inl e \<Rightarrow> Inl e
           | Inr ys \<Rightarrow> Inr (if keep then x # ys else ys)))"

definition glob :: "string list \<Rightarrow> string \<Rightarrow> error + string list" where
  "glob metric_names glob_pattern =
     (let glob_components = py_split (CHR ''.'') glob_pattern in
      py_filter (maybe_matched_prefilter glob_components (glob_plan glob_components))
        metric_names)"

subsection \<open>Notions used in the proofs\<close>

text \<open>
  A token that \<open>glob_to_regex\<close> compiles without raising: its kind is a member of the
  enumeration, and a literal carries a string. A run of the generator that ends
  without an exception and yields only such tokens.
\<close>

definition well_formed :: "token \<Rightarrow> bool" where
  "well_formed t \<longleftrightarrow>
     (\<exists>k. fst t = Some k) \<and> (fst t = Some LITERAL \<longrightarrow> (\<exists>d. snd t = Some d))"

definition stream_ok :: "error + token list \<Rightarrow> bool" where
  "stream_ok r \<longleftrightarrow> (\<exists>ts. r = Inr ts \<and> list_all well_formed ts)"

text \<open>Recorded constraints whose indices lie in \<open>0 .. n - 1\<close>.\<close>

definition indices_below :: "int \<Rightarrow> (int \<times> string) list \<Rightarrow> bool" where
  "indices_below n cs \<longleftrightarrow> (\<forall>(i, v) \<in> set cs. 0 \<le> i \<and> i < n)"

subsection \<open>Pattern classes used in the statements\<close>

text \<open>
  Patterns made of literal characters, dots and single stars only: no backslash, none
  of the characters \<open>? [ ] { } ,\<close> and no star next to a star. For such a pattern
  each character compiles by itself, a star to \<open>[^.]*\<close> and any other character to its
  escaped form, which the regular-expression parser reads as one item.
\<close>

fun simple_pattern :: "string \<Rightarrow> bool" where
  "simple_pattern [] = True"
| "simple_pattern (c # cs) =
     (c \<notin> set (BACKSLASH # ''?[]{},'') \<and> \<not> (c = CHR ''*'' \<and> take 1 cs = ''*'') \<and>
      simple_pattern cs)"

definition simple_char_regex :: "char \<Rightarrow> string" where
  "simple_char_regex c = (if c = CHR ''*'' then ''[^.]*'' else escape_char c)"

definition simple_item :: "char \<Rightarrow> ritem" where
  "simple_item c = (if c = CHR ''*'' then Star (NotIn ''.'') else One (Lit c))"

text \<open>
  A pattern of literal characters and dots only: no backslash and none of the
  metacharacters \<open>? * [ ] { } ,\<close> (a dash outside a character class is a literal
  character for the tokenizer).
\<close>

definition literal_pattern :: "string \<Rightarrow> bool" where
  "literal_pattern p \<longleftrightarrow> BACKSLASH \<notin> set p \<and> set p \<inter> set ''?*[]{},'' = {}"

text \<open>
  A component of a name agrees with a component of a pattern when the pattern's
  component has no star or the two are equal. A list of recorded constraints matches
  the components of a pattern when every entry names an index of the pattern and the
  plain literal found there.
\<close>

definition component_agrees :: "string \<Rightarrow> string \<Rightarrow> bool" where
  "component_agrees pc mc \<longleftrightarrow> (CHR ''*'' \<notin> set pc \<longrightarrow> mc = pc)"

definition entries_match :: "string list \<Rightarrow> (int \<times> string) list \<Rightarrow> bool" where
  "entries_match gc cs \<longleftrightarrow>
     (\<forall>(i, v) \<in> set cs. 0 \<le> i \<and> nat i < length gc \<and> gc ! nat i = v \<and> \<not> is_graphite_glob v)"

section \<open>Properties\<close>

subsection \<open>The structural validator\<close>

lemma brace_depth_Nil: "brace_depth [] = 0"
  by (simp add: brace_depth_def)

lemma brace_depth_Cons:
  "brace_depth (c # cs) =
     (if c = CHR ''{'' then 1 else if c = CHR ''}'' then - 1 else 0) + brace_depth cs"
  by (simp add: brace_depth_def)

lemma all_prefix_Cons:
  "(\<forall>p. prefix p (c # cs) \<longrightarrow> P p) \<longleftrightarrow> P [] \<and> (\<forall>p. prefix p cs \<longrightarrow> P (c # p))"
  by (auto simp: prefix_Cons)

lemma all_prefix_dot_Cons:
  "(\<forall>p. prefix (p @ ''.'') (c # cs) \<longrightarrow> P p) \<longleftrightarrow>
     (c = CHR ''.'' \<longrightarrow> P []) \<and> (\<forall>p. prefix (p @ ''.'') cs \<longrightarrow> P (c # p))"
proof -
  have "prefix (p @ ''.'') (c # cs) \<longleftrightarrow>
          (p = [] \<and> c = CHR ''.'') \<or> (\<exists>q. p = c # q \<and> prefix (q @ ''.'') cs)" for p
    by (cases p) auto
  then show ?thesis by auto
qed

text \<open>The loop started at a depth \<open>d\<close> that is not negative.\<close>

lemma valid_loop_spec:
  "0 \<le> d \<Longrightarrow> valid_loop d g \<longleftrightarrow>
     (\<forall>p. prefix p g \<longrightarrow> 0 \<le> d + brace_depth p) \<and>
     d + brace_depth g = 0 \<and>
     (\<forall>p. prefix (p @ ''.'') g \<longrightarrow> \<not> 0 < d + brace_depth p)"
proof (induction g arbitrary: d)
  case Nil
  then show ?case by (simp add: brace_depth_Nil)
next
  case (Cons c cs)
  show ?case
  proof (cases "c = CHR ''{''")
    case True
    have "0 \<le> d + 1" using Cons.prems by simp
    from Cons.IH[OF this] True Cons.prems show ?thesis
      by (simp add: all_prefix_Cons all_prefix_dot_Cons brace_depth_Cons brace_depth_Nil
            add.assoc)
  next
    case notopen: False
    show ?thesis
    proof (cases "c = CHR ''}''")
      case True
      show ?thesis
      proof (cases "d - 1 < 0")
        case neg: True
        have "\<not> 0 \<le> d + brace_depth [c]"
          using neg True by (simp add: brace_depth_Cons brace_depth_Nil)
        moreover have "prefix [c] (c # cs)" by simp
        ultimately have "\<not> (\<forall>p. prefix p (c # cs) \<longrightarrow> 0 \<le> d + brace_depth p)"
          by blast
        then show ?thesis using True neg by simp
      next
        case False
        then have "0 \<le> d - 1" by simp
        from Cons.IH[OF this] True False Cons.prems show ?thesis
          by (simp add: all_prefix_Cons all_prefix_dot_Cons brace_depth_Cons brace_depth_Nil
                algebra_simps)
      qed
    next
      case notclose: False
      from Cons.IH[OF Cons.prems] notopen notclose Cons.prems show ?thesis
        by (auto simp add: all_prefix_Cons all_prefix_dot_Cons brace_depth_Cons
              brace_depth_Nil)
    qed
  qed
qed

text \<open>
  Claim C8. The validator is a total function to the truth values, so it returns a
  boolean on every pattern and never raises. It returns \<open>True\<close> exactly when, reading the
  raw characters, the brace depth never goes negative, ends at zero, and no dot is read
  while the depth is positive. It returns \<open>False\<close> on the six malformed patterns of the
  specification and \<open>True\<close> on the four well-formed ones.
\<close>

theorem C8_is_valid_glob_spec:
  "(is_valid_glob g \<longleftrightarrow> spec_valid g) \<and>
   \<not> is_valid_glob ''{'' \<and> \<not> is_valid_glob ''{{}'' \<and> \<not> is_valid_glob ''{}}'' \<and>
   \<not> is_valid_glob ''}{'' \<and> \<not> is_valid_glob ''{a.}.b'' \<and>
   \<not> is_valid_glob ''{a,b.}.{.c,d}.e'' \<and>
   is_valid_glob ''a.b'' \<and> is_valid_glob ''{a}.b'' \<and> is_valid_glob ''{a,{b,c}}.d'' \<and>
   is_valid_glob ''{a,b}.{c,d}.e''"
proof -
  have "is_valid_glob g \<longleftrightarrow> spec_valid g"
    using valid_loop_spec[of 0 g] by (simp add: is_valid_glob_def spec_valid_def)
  then show ?thesis by (simp add: is_valid_glob_def)
qed

theorem C8_is_valid_glob_spec_witness:
  "spec_valid ''{a,{b,c}}.d'' \<and> \<not> spec_valid ''{a,b.}.{.c,d}.e''"
  using C8_is_valid_glob_spec[of "''{a,{b,c}}.d''"]
    C8_is_valid_glob_spec[of "''{a,b.}.{.c,d}.e''"]
  by (simp add: is_valid_glob_def)

subsection \<open>The plain-literal predicate\<close>

lemma re_compile_GRAPHITE_GLOB_RE:
  "re_compile GRAPHITE_GLOB_RE = Some [Plus (NotIn ''*?{}[]''), Eol]"
  by (simp add: GRAPHITE_GLOB_RE_def re_compile_def regex_special_def is_alnum_def)

lemma rmatch_star_class_eol:
  "NEWLINE \<notin> set m \<Longrightarrow> rmatch [Star (NotIn m), Eol] s \<longleftrightarrow> set s \<inter> set m = {}"
  by (induction s) auto

lemma rmatch_plus_class_eol:
  "NEWLINE \<notin> set m \<Longrightarrow>
     rmatch [Plus (NotIn m), Eol] s \<longleftrightarrow> s \<noteq> [] \<and> set s \<inter> set m = {}"
  by (cases s) (auto simp: rmatch_star_class_eol)

lemma is_graphite_glob_iff:
  "is_graphite_glob s \<longleftrightarrow> s = [] \<or> set s \<inter> set ''*?{}[]'' \<noteq> {}"
  unfolding is_graphite_glob_def re_match_def re_compile_GRAPHITE_GLOB_RE
  using rmatch_plus_class_eol[of "''*?{}[]''" s] by auto

text \<open>
  Claim C9, as stated, fails at the empty component: it contains none of the six
  characters, yet the pattern of \<open>_GRAPHITE_GLOB_RE\<close> asks for one character at least,
  so the match is \<open>None\<close> and \<open>_is_graphite_glob\<close> returns \<open>True\<close>.
\<close>

theorem C9_empty_component_counterexample:
  "is_graphite_glob [] \<and> set ([] :: string) \<inter> set ''*?{}[]'' = {}"
  by (simp add: is_graphite_glob_iff)

text \<open>
  Claim C9, amended. A component is a plain literal (\<open>_is_graphite_glob\<close> returns
  \<open>False\<close>) if and only if it is not empty and contains none of the characters
  \<open>* ? { } [ ]\<close>.
\<close>

theorem C9_plain_literal_nonempty:
  "\<not> is_graphite_glob s \<longleftrightarrow> s \<noteq> [] \<and> set s \<inter> set ''*?{}[]'' = {}"
  by (simp add: is_graphite_glob_iff)

theorem C9_plain_literal_nonempty_witness:
  "\<not> is_graphite_glob ''a-z'' \<and> is_graphite_glob ''a.b[a-z]?'' \<and> is_graphite_glob []"
  using C9_plain_literal_nonempty[of "''a-z''"]
    C9_plain_literal_nonempty[of "''a.b[a-z]?''"] C9_plain_literal_nonempty[of "[]"]
  by simp

subsection \<open>The tokenizer and the compiler never raise\<close>

lemma stream_ok_emit: "well_formed t \<Longrightarrow> stream_ok r \<Longrightarrow> stream_ok (emit t r)"
  by (auto simp: stream_ok_def emit_def)

lemma stream_ok_flush:
  "token = None \<or> token = Some LITERAL \<Longrightarrow> stream_ok r \<Longrightarrow> stream_ok (flush token tmp r)"
  by (auto simp: flush_def well_formed_def intro!: stream_ok_emit)

lemma stream_ok_lookahead:
  "stream_ok A \<Longrightarrow> (\<And>d ds. cs = d # ds \<Longrightarrow> stream_ok (B ds)) \<Longrightarrow>
     stream_ok (case cs of [] \<Rightarrow> A | d # ds \<Rightarrow> if d = x then B ds else A)"
  by (cases cs) auto

lemma special_char_cases:
  "c \<in> set SPECIAL_CHARS \<Longrightarrow>
     c = CHR ''.'' \<or> c = CHR ''?'' \<or> c = CHR ''*'' \<or> c = CHR ''['' \<or> c = CHR ''-'' \<or>
     c = CHR '']'' \<or> c = CHR ''{'' \<or> c = CHR '','' \<or> c = CHR ''}''"
  by (simp add: SPECIAL_CHARS_def)

lemma tok_loop_ok:
  "token = None \<or> token = Some LITERAL \<Longrightarrow> stream_ok (tok_loop e sel tmp token g)"
proof (induction g arbitrary: e sel tmp token rule: length_induct)
  case (1 g)
  have IH: "stream_ok (tok_loop e' sel' tmp' tk g')"
    if "length g' < length g" "tk = None \<or> tk = Some LITERAL" for e' sel' tmp' tk g'
    using 1 that by blast
  show ?case
  proof (cases g)
    case Nil
    with "1.prems" show ?thesis
      by (auto simp: stream_ok_def well_formed_def)
  next
    case (Cons c cs)
    have rec: "stream_ok (tok_loop e' sel' tmp' tk cs)"
      if "tk = None \<or> tk = Some LITERAL" for e' sel' tmp' tk
      using IH[of cs tk] that Cons by simp
    have rec2: "stream_ok (tok_loop e' sel' tmp' tk ds)"
      if "tk = None \<or> tk = Some LITERAL" "cs = d # ds" for e' sel' tmp' tk d ds
      using IH[of ds tk] that Cons by simp
    have wf: "well_formed (Some k, Some d)" for k d
      by (simp add: well_formed_def)
    show ?thesis
    proof (cases e)
      case True
      with Cons rec[OF "1.prems"] show ?thesis by simp
    next
      case notesc: False
      show ?thesis
      proof (cases "c = BACKSLASH")
        case True
        with Cons notesc rec[OF "1.prems"] show ?thesis by simp
      next
        case notbs: False
        show ?thesis
        proof (cases "c \<notin> set SPECIAL_CHARS \<or> (c = CHR ''-'' \<and> \<not> sel)")
          case True
          have "stream_ok (tok_loop False sel (tmp @ [c]) (Some LITERAL) cs)"
            by (rule rec) simp
          with True Cons notesc notbs "1.prems" show ?thesis
            by (auto simp del: set_simps)
        next
          case False
          then have sp: "c \<in> set SPECIAL_CHARS" by blast
          have eq: "tok_loop e sel tmp token g = flush token tmp
           (if c = CHR ''.'' then
             emit (Some PATH_SEPARATOR, Some [])
               (tok_loop False sel (flushed token tmp) None cs)
           else if c = CHR ''?'' then
             emit (Some WILD_CHAR, Some [])
               (tok_loop False sel (flushed token tmp) None cs)
           else if c = CHR ''*'' then
             (case cs of
                [] \<Rightarrow> emit (Some WILD_SEQUENCE, Some [])
                        (tok_loop False sel (flushed token tmp) None cs)
              | d # ds \<Rightarrow>
                  if d = CHR ''*''
                  then emit (Some WILD_PATH, Some [])
                         (tok_loop False sel (flushed token tmp) None ds)
                  else emit (Some WILD_SEQUENCE, Some [])
                         (tok_loop False sel (flushed token tmp) None cs))
           else if c = CHR ''['' then
             (case cs of
                [] \<Rightarrow> emit (Some CHAR_SELECT_BEGIN, Some [])
                        (tok_loop False True (flushed token tmp) None cs)
              | d # ds \<Rightarrow>
                  if d = CHR ''!''
                  then emit (Some CHAR_SELECT_NEGATED_BEGIN, Some [])
                         (tok_loop False True (flushed token tmp) None ds)
                  else emit (Some CHAR_SELECT_BEGIN, Some [])
                         (tok_loop False True (flushed token tmp) None cs))
           else if c = CHR ''-'' then
             emit (Some CHAR_SELECT_RANGE_DASH, Some [])
               (tok_loop False sel (flushed token tmp) None cs)
           else if c = CHR '']'' then
             emit (Some CHAR_SELECT_END, Some [])
               (tok_loop False False (flushed token tmp) None cs)
           else if c = CHR ''{'' then
             emit (Some EXPR_SELECT_BEGIN, Some [])
               (tok_loop False sel (flushed token tmp) None cs)
           else if c = CHR '','' then
             emit (Some EXPR_SELECT_SEPARATOR, Some [])
               (tok_loop False sel (flushed token tmp) None cs)
           else if c = CHR ''}'' then
             emit (Some EXPR_SELECT_END, Some [])
               (tok_loop False sel (flushed token tmp) None cs)
           else Inl (UnexpectedCharacter c))" (is "_ = flush token tmp ?body")
            using False notesc notbs unfolding Cons by (simp only: tok_loop.simps if_False)
          have "stream_ok ?body"
            using special_char_cases[OF sp]
            by (elim disjE; simp del: tok_loop.simps;
                intro stream_ok_lookahead stream_ok_emit wf rec rec2; simp)
          then show ?thesis
            unfolding eq using "1.prems" by (rule stream_ok_flush[rotated])
        qed
      qed
    qed
  qed
qed

lemma token_regex_ok: "well_formed t \<Longrightarrow> \<exists>r. token_regex t = Inr r"
proof -
  assume wf: "well_formed t"
  obtain k d where t: "t = (k, d)" by (cases t)
  from wf t obtain kind where k: "k = Some kind" by (auto simp: well_formed_def)
  show ?thesis
    using wf unfolding t k by (cases kind) (auto simp: well_formed_def)
qed

lemma regex_loop_ok: "list_all well_formed ts \<Longrightarrow> \<exists>r. regex_loop ans ts = Inr r"
proof (induction ts arbitrary: ans)
  case Nil
  then show ?case by simp
next
  case (Cons t ts)
  then obtain r where "token_regex t = Inr r" using token_regex_ok[of t] by auto
  with Cons show ?case by simp
qed

text \<open>
  Claim C10. On every input string \<open>tokenize\<close> runs to its end without raising (the
  branch for an unexpected character is never taken), and so does \<open>glob_to_regex\<close>
  (neither the branch for an unknown token kind nor \<open>re.escape\<close> on \<open>None\<close> is reached).
  Both functions are defined by terminating recursion on the input.
\<close>

theorem C10_pipeline_total:
  "(\<exists>tokens. tokenize g = Inr tokens) \<and> (\<exists>regex. glob_to_regex g = Inr regex)"
proof -
  have "stream_ok (tokenize g)"
    unfolding tokenize_def by (rule tok_loop_ok) simp
  then obtain ts where ts: "tokenize g = Inr ts" "list_all well_formed ts"
    by (auto simp: stream_ok_def)
  from regex_loop_ok[OF ts(2), of "[]"] obtain r where "regex_loop [] ts = Inr r" by auto
  with ts(1) show ?thesis by (simp add: glob_to_regex_def)
qed

theorem C10_pipeline_total_witness:
  "\<not> isl (tokenize ''a.b[!x-z]?.{c,d*}.**'') \<and> \<not> isl (glob_to_regex ''a.b[!x-z]?.{c,d*}.**'')"
  using C10_pipeline_total[of "''a.b[!x-z]?.{c,d*}.**''"] by auto

subsection \<open>The tokenizer drops an escaped character\<close>

text \<open>
  Claim C5 on the code. The branch for an escaped character appends it to \<open>tmp\<close> and
  leaves \<open>token\<close> as it is. With no literal pending, \<open>token\<close> is \<open>None\<close>, so neither the
  next metacharacter nor the end of the input yields \<open>tmp\<close>. For the pattern of the
  claim, an opening brace, \<open>a\<close>, a comma, a backslash, \<open>b\<close> and a closing brace, no
  token carries the \<open>b\<close>; for a backslash and \<open>b\<close> alone no token is yielded at all.
\<close>

theorem C5_escaped_character_dropped:
  "tokenize (''{a,'' @ [BACKSLASH] @ ''b}'') =
     Inr [(Some EXPR_SELECT_BEGIN, Some []), (Some LITERAL, Some ''a''),
          (Some EXPR_SELECT_SEPARATOR, Some []), (Some EXPR_SELECT_END, Some [])] \<and>
   tokenize ([BACKSLASH] @ ''b'') = Inr []"
  by (simp add: tokenize_def SPECIAL_CHARS_def emit_def flush_def flushed_def)

subsection \<open>The prefilter\<close>

lemma indices_below_simps [simp]:
  "indices_below n []"
  "indices_below n (xs @ ys) \<longleftrightarrow> indices_below n xs \<and> indices_below n ys"
  "indices_below n ((i, v) # xs) \<longleftrightarrow> 0 \<le> i \<and> i < n \<and> indices_below n xs"
  by (auto simp: indices_below_def)

lemma scan_components_bounds:
  "indices_below n (prefix_literals pl) \<Longrightarrow> indices_below n (suffix_literals pl) \<Longrightarrow>
   0 \<le> k \<Longrightarrow> k + int (length comps) = n \<Longrightarrow> (truthy (globstar pl) \<Longrightarrow> 1 \<le> k) \<Longrightarrow>
   indices_below n (prefix_literals (scan_components n pl (enumerate k comps))) \<and>
   indices_below n (suffix_literals (scan_components n pl (enumerate k comps)))"
proof (induction comps arbitrary: k pl)
  case Nil
  then show ?case by simp
next
  case (Cons c cs)
  have k1: "0 \<le> k + 1" "k + 1 + int (length cs) = n" "1 \<le> k + 1"
    using Cons.prems by simp_all
  show ?case
  proof (cases "c = ''**''")
    case True
    show ?thesis
      using Cons.IH[of "pl\<lparr>globstar := Some k\<rparr>" "k + 1"] Cons.prems k1 True
      by simp
  next
    case star: False
    show ?thesis
    proof (cases "truthy (globstar pl)")
      case True
      then have "1 \<le> k" using Cons.prems by simp
      then show ?thesis
        using Cons.IH[of "pl\<lparr>suffix_literals := suffix_literals pl @ [(n - k, c)]\<rparr>" "k + 1"]
          Cons.prems k1 True star
        by simp
    next
      case False
      show ?thesis
      proof (cases "is_graphite_glob c")
        case True
        then show ?thesis
          using Cons.IH[of pl "k + 1"] Cons.prems k1 False star by simp
      next
        case lit: False
        then show ?thesis
          using Cons.IH[of "pl\<lparr>prefix_literals := prefix_literals pl @ [(k, c)]\<rparr>" "k + 1"]
            Cons.prems k1 False star
          by simp
      qed
    qed
  qed
qed

lemma glob_plan_bounds:
  "indices_below (int (length gc)) (suffix_literals (glob_plan gc) @ prefix_literals (glob_plan gc))"
  using scan_components_bounds[of "int (length gc)"
      "\<lparr>globstar = None, prefix_literals = [], suffix_literals = []\<rparr>" 0 gc]
  by (simp add: glob_plan_def truthy_def)

lemma check_literals_total:
  "indices_below n cs \<Longrightarrow> n \<le> int (length mc) \<Longrightarrow> \<exists>b. check_literals mc cs = Inr b"
  by (induction cs) (auto simp: py_index_def)

lemma maybe_matched_prefilter_total:
  "\<exists>b. maybe_matched_prefilter gc (glob_plan gc) m = Inr b"
proof -
  let ?mc = "py_split (CHR ''.'') m"
  let ?cs = "suffix_literals (glob_plan gc) @ prefix_literals (glob_plan gc)"
  have "\<exists>b. check_literals ?mc ?cs = Inr b" if "length gc \<le> length ?mc"
    using check_literals_total[OF glob_plan_bounds, of gc ?mc] that by simp
  then show ?thesis
    by (auto simp: maybe_matched_prefilter_def Let_def)
qed

lemma py_filter_total:
  "(\<And>x. \<exists>b. f x = Inr b) \<Longrightarrow> py_filter f xs = Inr (filter (\<lambda>x. f x = Inr True) xs)"
proof (induction xs)
  case Nil
  then show ?case by simp
next
  case (Cons x xs)
  from Cons.prems obtain b where "f x = Inr b" by blast
  with Cons show ?case by auto
qed

lemma glob_eq_filter:
  "glob names p =
     Inr (filter (\<lambda>m. maybe_matched_prefilter (py_split (CHR ''.'') p)
                       (glob_plan (py_split (CHR ''.'') p)) m = Inr True) names)"
  unfolding glob_def Let_def
  by (rule py_filter_total) (rule maybe_matched_prefilter_total)

lemma scan_components_no_globstar:
  "''**'' \<notin> set comps \<Longrightarrow>
     globstar (scan_components n pl (enumerate k comps)) = globstar pl"
  by (induction comps arbitrary: k pl) auto

lemma scan_components_last_globstar:
  "''**'' \<notin> set after \<Longrightarrow>
     globstar (scan_components n pl (enumerate k (before @ ''**'' # after))) =
       Some (k + int (length before))"
proof (induction before arbitrary: k pl)
  case Nil
  then show ?case by (simp add: scan_components_no_globstar)
next
  case (Cons c cs)
  have "globstar (scan_components n pl' (enumerate (k + 1) (cs @ ''**'' # after))) =
          Some (k + 1 + int (length cs))" for pl'
    using Cons.IH[OF Cons.prems] .
  then show ?case by (simp add: add.assoc)
qed

lemma maybe_matched_count:
  "maybe_matched_prefilter gc (glob_plan gc) m = Inr True \<Longrightarrow>
     (if ''**'' \<in> set gc then length gc \<le> length (py_split (CHR ''.'') m)
      else length (py_split (CHR ''.'') m) = length gc)"
proof -
  assume kept: "maybe_matched_prefilter gc (glob_plan gc) m = Inr True"
  have "\<not> truthy (globstar (glob_plan gc))" if "''**'' \<notin> set gc"
    using scan_components_no_globstar[OF that] by (simp add: glob_plan_def truthy_def)
  with kept show ?thesis
    by (auto simp: maybe_matched_prefilter_def Let_def split: if_splits)
qed

text \<open>
  Claim C2 on the code. For the pattern \<open>a.**.c\<close> the loop records the constraint
  \<open>(1, c)\<close>: the component \<open>c\<close> lies one place before the end. The check then reads
  \<open>metric_components[1]\<close>, the second component from the start. The name \<open>a.b.c\<close>,
  whose last component is \<open>c\<close>, is rejected, and \<open>a.c.b\<close> is kept. For \<open>a.**.b*\<close> the
  component \<open>b*\<close>, which is no plain literal, is recorded as well.
\<close>

theorem C2_suffix_constraint_misplaced:
  "glob_plan (py_split (CHR ''.'') ''a.**.c'') =
     \<lparr>globstar = Some 1, prefix_literals = [(0, ''a'')], suffix_literals = [(1, ''c'')]\<rparr> \<and>
   py_split (CHR ''.'') ''a.b.c'' = [''a'', ''b'', ''c''] \<and>
   glob [''a.b.c'', ''a.c.b''] ''a.**.c'' = Inr [''a.c.b''] \<and>
   suffix_literals (glob_plan (py_split (CHR ''.'') ''a.**.b*'')) = [(1, ''b*'')]"
  by (simp add: glob_def glob_plan_def maybe_matched_prefilter_def truthy_def py_index_def
        is_graphite_glob_iff)

text \<open>
  Claim C3. The prefilter runs to its end without raising, it keeps names of the
  candidate list only, and it keeps a name only if the number of its components equals
  that of the pattern when no component of the pattern is \<open>**\<close>, and is at least that of
  the pattern when some component is \<open>**\<close>, at whatever index.
\<close>

theorem C3_component_count:
  "\<exists>kept. glob names p = Inr kept \<and>
     (\<forall>m \<in> set kept. m \<in> set names \<and>
        (if ''**'' \<in> set (py_split (CHR ''.'') p)
         then length (py_split (CHR ''.'') p) \<le> length (py_split (CHR ''.'') m)
         else length (py_split (CHR ''.'') m) = length (py_split (CHR ''.'') p)))"
  unfolding glob_eq_filter using maybe_matched_count by auto

theorem C3_component_count_witness:
  "glob [''x.a'', ''x.y.a'', ''a''] ''**.a'' = Inr [''x.a''] \<and>
   length (py_split (CHR ''.'') ''**.a'') \<le> length (py_split (CHR ''.'') ''x.a'')"
  using C3_component_count[of "[''x.a'', ''x.y.a'', ''a'']" "''**.a''"]
  by (simp add: glob_def glob_plan_def maybe_matched_prefilter_def truthy_def py_index_def
        is_graphite_glob_iff)

text \<open>
  Claim C4, as stated, fails for \<open>a.**.**\<close>: the first component equal to \<open>**\<close> has
  index 1, and the loop, which assigns \<open>globstar\<close> at every such component, ends with 2.
\<close>

theorem C4_first_globstar_counterexample:
  "py_split (CHR ''.'') ''a.**.**'' = [''a'', ''**'', ''**''] \<and>
   globstar (glob_plan (py_split (CHR ''.'') ''a.**.**'')) = Some 2"
  by (simp add: glob_plan_def truthy_def is_graphite_glob_iff)

text \<open>
  Claim C4, amended. For every pattern with a component equal to \<open>**\<close>, the index that
  \<open>globstar\<close> holds when the loop ends is the index of the last such component.
\<close>

theorem C4_last_globstar:
  "py_split (CHR ''.'') p = before @ ''**'' # after \<Longrightarrow> ''**'' \<notin> set after \<Longrightarrow>
     globstar (glob_plan (py_split (CHR ''.'') p)) = Some (int (length before))"
  using scan_components_last_globstar[of after _ _ 0 before] by (simp add: glob_plan_def)

theorem C4_last_globstar_witness:
  "globstar (glob_plan (py_split (CHR ''.'') ''a.**.b.**.c'')) = Some 3"
  using C4_last_globstar[of "''a.**.b.**.c''" "[''a'', ''**'', ''b'']" "[''c'']"] by simp

subsection \<open>Literal patterns and wildcards\<close>

lemma simple_char_regex_simps:
  "simple_char_regex (CHR ''*'') = ''[^.]*''"
  "c \<noteq> CHR ''*'' \<Longrightarrow> simple_char_regex c = escape_char c"
  by (simp_all add: simple_char_regex_def)

lemma re_escape_simps [simp]:
  "re_escape [] = []"
  "re_escape (c # cs) = escape_char c @ re_escape cs"
  "re_escape (xs @ ys) = re_escape xs @ re_escape ys"
  by (simp_all add: re_escape_def)

lemma emit_Inr [simp]: "emit t (Inr ts) = Inr (t # ts)"
  by (simp add: emit_def)

lemma flush_Inr:
  "flush token tmp (Inr ts) = Inr ((case token of Some t \<Rightarrow> [(token, Some tmp)] | None \<Rightarrow> []) @ ts)"
  by (simp add: flush_def split: option.split)

lemma tok_loop_wild_path:
  "tok_loop False sel tmp token (CHR ''*'' # CHR ''*'' # rest) =
     flush token tmp (emit (Some WILD_PATH, Some [])
       (tok_loop False sel (flushed token tmp) None rest))"
  by (subst tok_loop.simps(2)) (simp add: SPECIAL_CHARS_def del: tok_loop.simps)

lemma tok_loop_wild_sequence:
  "take 1 rest \<noteq> ''*'' \<Longrightarrow>
   tok_loop False sel tmp token (CHR ''*'' # rest) =
     flush token tmp (emit (Some WILD_SEQUENCE, Some [])
       (tok_loop False sel (flushed token tmp) None rest))"
  by (subst tok_loop.simps(2))
     (auto simp add: SPECIAL_CHARS_def simp del: tok_loop.simps split: list.split)

lemma tok_loop_wild_char:
  "tok_loop False sel tmp token (CHR ''?'' # rest) =
     flush token tmp (emit (Some WILD_CHAR, Some [])
       (tok_loop False sel (flushed token tmp) None rest))"
  by (subst tok_loop.simps(2)) (simp add: SPECIAL_CHARS_def del: tok_loop.simps)

lemma tok_loop_simple:
  "simple_pattern p \<Longrightarrow> token = None \<and> tmp = [] \<or> token = Some LITERAL \<Longrightarrow>
   \<exists>ts. tok_loop False False tmp token p = Inr ts \<and>
        (\<forall>ans. regex_loop ans ts = Inr (ans @ re_escape tmp @ concat (map simple_char_regex p)))"
proof (induction p arbitrary: tmp token)
  case Nil
  then show ?case by auto
next
  case (Cons c cs)
  from Cons.prems have cs: "simple_pattern cs" and nbs: "c \<noteq> BACKSLASH"
    and c: "c \<notin> set ''?[]{},''" and ns: "\<not> (c = CHR ''*'' \<and> take 1 cs = ''*'')"
    by simp_all
  consider (dot) "c = CHR ''.''" | (star) "c = CHR ''*''" | (dash) "c = CHR ''-''"
    | (other) "c \<notin> set SPECIAL_CHARS"
    using c by (auto simp: SPECIAL_CHARS_def)
  then show ?case
  proof cases
    case dot
    from Cons.IH[OF cs, of None "[]"] obtain ts where
      ts: "tok_loop False False [] None cs = Inr ts"
      "\<And>ans. regex_loop ans ts = Inr (ans @ concat (map simple_char_regex cs))"
      by auto
    have fl: "flushed token tmp = []" using Cons.prems(2) by (auto simp: flushed_def)
    show ?thesis
      using Cons.prems(2) ts
      by (auto simp: dot SPECIAL_CHARS_def fl flush_Inr simple_char_regex_simps)
  next
    case star
    from Cons.IH[OF cs, of None "[]"] obtain ts where
      ts: "tok_loop False False [] None cs = Inr ts"
      "\<And>ans. regex_loop ans ts = Inr (ans @ concat (map simple_char_regex cs))"
      by auto
    have fl: "flushed token tmp = []" using Cons.prems(2) by (auto simp: flushed_def)
    have nxt: "take 1 cs \<noteq> ''*''" using ns star by simp
    show ?thesis
      using Cons.prems(2) ts
      by (auto simp: star tok_loop_wild_sequence[OF nxt] fl flush_Inr simple_char_regex_simps
            simp del: tok_loop.simps(2))
  next
    case dash
    from Cons.IH[OF cs, of "Some LITERAL" "tmp @ [c]"] obtain ts where
      ts: "tok_loop False False (tmp @ [c]) (Some LITERAL) cs = Inr ts"
      "\<And>ans. regex_loop ans ts = Inr (ans @ re_escape (tmp @ [c]) @ concat (map simple_char_regex cs))"
      by auto
    show ?thesis
      using Cons.prems(2) ts
      by (auto simp: dash SPECIAL_CHARS_def simple_char_regex_simps)
  next
    case other
    from Cons.IH[OF cs, of "Some LITERAL" "tmp @ [c]"] obtain ts where
      ts: "tok_loop False False (tmp @ [c]) (Some LITERAL) cs = Inr ts"
      "\<And>ans. regex_loop ans ts = Inr (ans @ re_escape (tmp @ [c]) @ concat (map simple_char_regex cs))"
      by auto
    have "c \<noteq> CHR ''*''" using other by (auto simp: SPECIAL_CHARS_def)
    then show ?thesis
      using Cons.prems(2) ts other nbs
      by (auto simp: simple_char_regex_simps)
  qed
qed

lemma glob_to_regex_simple:
  "simple_pattern p \<Longrightarrow>
     glob_to_regex p = Inr (''^'' @ concat (map simple_char_regex p) @ ''$'')"
  using tok_loop_simple[of p None "[]"]
  by (auto simp: glob_to_regex_def tokenize_def)


lemma special_not_alnum: "c \<in> set escape_special \<Longrightarrow> \<not> is_alnum c"
  by (auto simp: escape_special_def is_alnum_def)

lemma not_special_plain:
  "c \<notin> set escape_special \<Longrightarrow>
     c \<notin> set regex_special \<and> c \<noteq> BACKSLASH \<and> c \<noteq> CHR ''.'' \<and> c \<noteq> CHR ''['' \<and>
     c \<noteq> CHR ''$'' \<and> c \<noteq> CHR ''*'' \<and> c \<noteq> CHR ''+''"
  by (auto simp: escape_special_def regex_special_def)

lemma re_items_star_dot:
  "re_items (''.*'' @ rest) = map_option ((#) (Star Dot)) (re_items rest)"
  by simp

lemma re_items_star_not_dot:
  "re_items (''[^.]*'' @ rest) = map_option ((#) (Star (NotIn ''.''))) (re_items rest)"
  by (simp add: regex_special_def)

lemma re_items_escaped:
  "\<not> is_alnum c \<Longrightarrow> q \<noteq> CHR ''*'' \<Longrightarrow> q \<noteq> CHR ''+'' \<Longrightarrow>
     re_items (BACKSLASH # c # q # rest) = map_option ((#) (One (Lit c))) (re_items (q # rest))"
  by (subst re_items.simps(2)) (simp del: re_items.simps)

lemma re_items_plain:
  "c \<notin> set escape_special \<Longrightarrow> q \<noteq> CHR ''*'' \<Longrightarrow> q \<noteq> CHR ''+'' \<Longrightarrow>
     re_items (c # q # rest) = map_option ((#) (One (Lit c))) (re_items (q # rest))"
  using not_special_plain[of c]
  by (subst re_items.simps(2)) (simp del: re_items.simps)

lemma simple_regex_head:
  "\<exists>q rest. concat (map simple_char_regex p) @ ''$'' = q # rest \<and> q \<noteq> CHR ''*'' \<and> q \<noteq> CHR ''+''"
proof (cases p)
  case Nil
  then show ?thesis by simp
next
  case (Cons c cs)
  show ?thesis
  proof (cases "c = CHR ''*''")
    case True
    then show ?thesis using Cons by (simp add: simple_char_regex_simps)
  next
    case False
    then show ?thesis
      using Cons not_special_plain[of c]
      by (auto simp: simple_char_regex_simps escape_char_def)
  qed
qed

lemma re_items_simple:
  "re_items (concat (map simple_char_regex p) @ ''$'') = Some (map simple_item p @ [Eol])"
proof (induction p)
  case Nil
  then show ?case by simp
next
  case (Cons c cs)
  obtain q rest where hd: "concat (map simple_char_regex cs) @ ''$'' = q # rest"
    "q \<noteq> CHR ''*''" "q \<noteq> CHR ''+''"
    using simple_regex_head[of cs] by blast
  show ?case
  proof (cases "c = CHR ''*''")
    case True
    have "re_items (concat (map simple_char_regex (c # cs)) @ ''$'') =
            re_items (''[^.]*'' @ (concat (map simple_char_regex cs) @ ''$''))"
      using True by (simp add: simple_char_regex_simps)
    also have "\<dots> = Some (map simple_item (c # cs) @ [Eol])"
      unfolding re_items_star_not_dot Cons.IH using True by (simp add: simple_item_def)
    finally show ?thesis .
  next
    case False
    show ?thesis
    proof (cases "c \<in> set escape_special")
      case True
      have "re_items (concat (map simple_char_regex (c # cs)) @ ''$'') =
              re_items (BACKSLASH # c # q # rest)"
        using True False hd(1) by (simp add: simple_char_regex_simps escape_char_def)
      also have "\<dots> = map_option ((#) (One (Lit c))) (re_items (q # rest))"
        by (rule re_items_escaped[OF special_not_alnum[OF True] hd(2,3)])
      also have "\<dots> = Some (map simple_item (c # cs) @ [Eol])"
        using Cons.IH False unfolding hd(1) by (simp add: simple_item_def)
      finally show ?thesis .
    next
      case plain: False
      have "re_items (concat (map simple_char_regex (c # cs)) @ ''$'') =
              re_items (c # q # rest)"
        using plain False hd(1) by (simp add: simple_char_regex_simps escape_char_def)
      also have "\<dots> = map_option ((#) (One (Lit c))) (re_items (q # rest))"
        by (rule re_items_plain[OF plain hd(2,3)])
      also have "\<dots> = Some (map simple_item (c # cs) @ [Eol])"
        using Cons.IH False unfolding hd(1) by (simp add: simple_item_def)
      finally show ?thesis .
    qed
  qed
qed

lemma re_compile_simple:
  "re_compile (''^'' @ concat (map simple_char_regex p) @ ''$'') = Some (map simple_item p @ [Eol])"
  using re_items_simple[of p] by (simp add: re_compile_def)

lemma rmatch_literal:
  "rmatch (map (\<lambda>c. One (Lit c)) p @ [Eol]) s \<longleftrightarrow> s = p \<or> s = p @ [NEWLINE]"
proof (induction p arbitrary: s)
  case Nil
  then show ?case by simp
next
  case (Cons c cs)
  then show ?case by (cases s) auto
qed


lemma literal_pattern_simple:
  "literal_pattern p \<Longrightarrow> simple_pattern p \<and> CHR ''*'' \<notin> set p"
  by (induction p) (auto simp: literal_pattern_def)

lemma simple_regex_literal:
  "CHR ''*'' \<notin> set p \<Longrightarrow> concat (map simple_char_regex p) = re_escape p"
  by (induction p) (auto simp: simple_char_regex_simps)

lemma simple_items_literal:
  "CHR ''*'' \<notin> set p \<Longrightarrow> map simple_item p = map (\<lambda>c. One (Lit c)) p"
  by (induction p) (auto simp: simple_item_def)

lemma glob_to_regex_anchored: "\<exists>body. glob_to_regex g = Inr (''^'' @ body @ ''$'')"
proof -
  have "stream_ok (tokenize g)"
    unfolding tokenize_def by (rule tok_loop_ok) simp
  then obtain ts where ts: "tokenize g = Inr ts" "list_all well_formed ts"
    by (auto simp: stream_ok_def)
  from regex_loop_ok[OF ts(2), of "[]"] obtain r where "regex_loop [] ts = Inr r" by auto
  with ts(1) show ?thesis by (simp add: glob_to_regex_def)
qed

text \<open>
  What the compiler returns for literal patterns. For every pattern \<open>glob_to_regex\<close>
  returns a string that begins with \<open>^\<close> and ends with \<open>$\<close>. For every pattern of
  literal characters and dots only, the compiled regex is \<open>^\<close>, the escaped pattern and
  \<open>$\<close>, and \<open>match\<close> accepts the pattern itself and, besides it, the pattern followed by
  one newline.
\<close>

lemma glob_to_regex_literal_pattern:
  "(\<exists>body. glob_to_regex g = Inr (''^'' @ body @ ''$'')) \<and>
   (literal_pattern p \<longrightarrow>
      glob_to_regex p = Inr (''^'' @ re_escape p @ ''$'') \<and>
      re_match (''^'' @ re_escape p @ ''$'') s = Some (s = p \<or> s = p @ [NEWLINE]))"
proof (intro conjI impI)
  show "\<exists>body. glob_to_regex g = Inr (''^'' @ body @ ''$'')"
    by (rule glob_to_regex_anchored)
next
  assume lit: "literal_pattern p"
  then have sp: "simple_pattern p" and ns: "CHR ''*'' \<notin> set p"
    using literal_pattern_simple by blast+
  show "glob_to_regex p = Inr (''^'' @ re_escape p @ ''$'')"
    using glob_to_regex_simple[OF sp] simple_regex_literal[OF ns] by simp
  show "re_match (''^'' @ re_escape p @ ''$'') s = Some (s = p \<or> s = p @ [NEWLINE])"
    using re_compile_simple[of p] rmatch_literal[of p s]
    unfolding simple_regex_literal[OF ns] simple_items_literal[OF ns]
    by (simp add: re_match_def)
qed

lemma glob_to_regex_literal_pattern_example:
  "glob_to_regex ''a-b.c_d'' = Inr (''^a'' @ [BACKSLASH] @ ''-b'' @ [BACKSLASH] @ ''.c_d$'') \<and>
   re_match (''^a'' @ [BACKSLASH] @ ''-b'' @ [BACKSLASH] @ ''.c_d$'') ''a-b.c_d'' = Some True \<and>
   re_match (''^a'' @ [BACKSLASH] @ ''-b'' @ [BACKSLASH] @ ''.c_d$'') ''a-b.cxd'' = Some False"
  using glob_to_regex_literal_pattern[of "''a''" "''a-b.c_d''" "''a-b.c_d''"]
    glob_to_regex_literal_pattern[of "''a''" "''a-b.c_d''" "''a-b.cxd''"]
  by (simp add: literal_pattern_def escape_char_def escape_special_def)

text \<open>
  Claim C7 on the code. The docstring of \<open>glob_to_regex\<close> says that the returned regex
  only matches whole strings. For the literal pattern \<open>a\<close> the function returns \<open>^a$\<close>,
  and \<open>match\<close> accepts the string made of \<open>a\<close> and a newline, which is not the pattern
  and which the match does not span: \<open>$\<close> also matches before a newline that ends the
  string, where an anchor for the end of the string alone was meant.
\<close>

theorem C7_trailing_newline_match:
  "glob_to_regex ''a'' = Inr ''^a$'' \<and> re_match ''^a$'' [CHR ''a'', NEWLINE] = Some True \<and>
   [CHR ''a'', NEWLINE] \<noteq> ''a'' \<and> re_match ''^a$'' ''a'' = Some True"
  by (simp add: glob_to_regex_def tokenize_def SPECIAL_CHARS_def escape_char_def
        escape_special_def re_match_def re_compile_def regex_special_def)

lemma rmatch_star:
  "rmatch (Star a # k) s \<longleftrightarrow> (\<exists>u v. s = u @ v \<and> list_all (atom_match a) u \<and> rmatch k v)"
proof (induction s)
  case Nil
  then show ?case by simp
next
  case (Cons x xs)
  show ?case
  proof
    assume "rmatch (Star a # k) (x # xs)"
    then consider "rmatch k (x # xs)" | "atom_match a x" "rmatch (Star a # k) xs" by auto
    then show "\<exists>u v. x # xs = u @ v \<and> list_all (atom_match a) u \<and> rmatch k v"
    proof cases
      case 1
      then have "x # xs = [] @ (x # xs) \<and> list_all (atom_match a) [] \<and> rmatch k (x # xs)"
        by simp
      then show ?thesis by blast
    next
      case 2
      with Cons.IH obtain u v where "xs = u @ v" "list_all (atom_match a) u" "rmatch k v"
        by auto
      with 2 have "x # xs = (x # u) @ v \<and> list_all (atom_match a) (x # u) \<and> rmatch k v"
        by simp
      then show ?thesis by blast
    qed
  next
    assume "\<exists>u v. x # xs = u @ v \<and> list_all (atom_match a) u \<and> rmatch k v"
    then obtain u v where uv: "x # xs = u @ v" "list_all (atom_match a) u" "rmatch k v"
      by blast
    show "rmatch (Star a # k) (x # xs)"
    proof (cases u)
      case Nil
      with uv have "rmatch k (x # xs)" by simp
      then show ?thesis by simp
    next
      case (Cons y u')
      with uv have "atom_match a x" "xs = u' @ v" "list_all (atom_match a) u'" by auto
      with uv(3) Cons.IH show ?thesis by auto
    qed
  qed
qed

lemma list_all_dot: "list_all (atom_match Dot) u \<longleftrightarrow> NEWLINE \<notin> set u"
  by (induction u) auto

lemma list_all_not_in: "list_all (atom_match (NotIn m)) u \<longleftrightarrow> set u \<inter> set m = {}"
  by (induction u) auto

lemma re_items_dot:
  "take 1 r \<noteq> ''*'' \<Longrightarrow> take 1 r \<noteq> ''+'' \<Longrightarrow>
     re_items (''.'' @ r) = map_option ((#) (One Dot)) (re_items r)"
  by (cases r) (simp_all del: re_items.simps add: re_items.simps(1) re_items.simps(2)[of "CHR ''.''"])

text \<open>
  Claim C6, amended. Wherever the scanner stands outside an escape, \<open>**\<close> is consumed as
  one \<open>WILD_PATH\<close> token, a \<open>*\<close> that no \<open>*\<close> follows as \<open>WILD_SEQUENCE\<close>, and \<open>?\<close> as
  \<open>WILD_CHAR\<close>. They compile to \<open>.*\<close>, \<open>[^.]*\<close> and \<open>.\<close>, which the regex parser reads
  as the items \<open>Star Dot\<close>, \<open>Star (NotIn ''.'')\<close> and \<open>One Dot\<close> whatever follows. Before
  any rest \<open>k\<close> of the regex, the first matches any sequence of characters other than
  the newline (dots included), the second any sequence of characters other than the
  dot, and the third any single character other than the newline (the dot included).
\<close>

theorem C6_wildcards:
  "tok_loop False sel tmp token (''**'' @ rest) =
     flush token tmp (emit (Some WILD_PATH, Some [])
       (tok_loop False sel (flushed token tmp) None rest)) \<and>
   (take 1 rest \<noteq> ''*'' \<longrightarrow>
      tok_loop False sel tmp token (''*'' @ rest) =
        flush token tmp (emit (Some WILD_SEQUENCE, Some [])
          (tok_loop False sel (flushed token tmp) None rest))) \<and>
   tok_loop False sel tmp token (''?'' @ rest) =
     flush token tmp (emit (Some WILD_CHAR, Some [])
       (tok_loop False sel (flushed token tmp) None rest)) \<and>
   token_regex (Some WILD_PATH, d) = Inr ''.*'' \<and>
   token_regex (Some WILD_SEQUENCE, d) = Inr ''[^.]*'' \<and>
   token_regex (Some WILD_CHAR, d) = Inr ''.'' \<and>
   re_items (''.*'' @ r) = map_option ((#) (Star Dot)) (re_items r) \<and>
   re_items (''[^.]*'' @ r) = map_option ((#) (Star (NotIn ''.''))) (re_items r) \<and>
   (take 1 r \<noteq> ''*'' \<and> take 1 r \<noteq> ''+'' \<longrightarrow>
      re_items (''.'' @ r) = map_option ((#) (One Dot)) (re_items r)) \<and>
   (rmatch (Star Dot # k) s \<longleftrightarrow> (\<exists>u v. s = u @ v \<and> NEWLINE \<notin> set u \<and> rmatch k v)) \<and>
   (rmatch (Star (NotIn ''.'') # k) s \<longleftrightarrow>
      (\<exists>u v. s = u @ v \<and> CHR ''.'' \<notin> set u \<and> rmatch k v)) \<and>
   (rmatch (One Dot # k) s \<longleftrightarrow> (\<exists>c v. s = c # v \<and> c \<noteq> NEWLINE \<and> rmatch k v))"
proof -
  have one: "rmatch (One Dot # k) s \<longleftrightarrow> (\<exists>c v. s = c # v \<and> c \<noteq> NEWLINE \<and> rmatch k v)"
    by (cases s) auto
  show ?thesis
    using tok_loop_wild_path[of sel tmp token rest] tok_loop_wild_sequence[of rest sel tmp token]
      tok_loop_wild_char[of sel tmp token rest] re_items_star_dot[of r]
      re_items_star_not_dot[of r] re_items_dot[of r]
      rmatch_star[of Dot k s] rmatch_star[of "NotIn ''.''" k s] one
    by (simp only: list_all_dot list_all_not_in append_Cons append_Nil token_regex.simps
          simp_thms) simp
qed


theorem C6_wildcards_witness:
  "tokenize ''**.a'' =
     Inr [(Some WILD_PATH, Some []), (Some PATH_SEPARATOR, Some []), (Some LITERAL, Some ''a'')] \<and>
   tokenize ''*.a'' =
     Inr [(Some WILD_SEQUENCE, Some []), (Some PATH_SEPARATOR, Some []), (Some LITERAL, Some ''a'')] \<and>
   re_items ''.*$'' = Some [Star Dot, Eol] \<and> re_items ''.$'' = Some [One Dot, Eol] \<and>
   rmatch [Star Dot, Eol] ''a.b'' \<and> rmatch [One Dot, Eol] ''.'' \<and>
   \<not> rmatch [Star (NotIn ''.''), Eol] ''a.b''"
  using C6_wildcards[of False "[]" None "''.a''" "Some []" "''$''" "[Eol]" "''a.b''"]
    C6_wildcards[of False "[]" None "''.a''" "Some []" "''$''" "[Eol]" "''.''"]
  by (simp add: tokenize_def SPECIAL_CHARS_def emit_def flush_def flushed_def)

text \<open>
  Claim C6, as stated, fails at the newline: the regex of \<open>?\<close> does not match the one
  character newline, and the regex of \<open>**\<close> does not match two newlines.
\<close>

theorem C6_newline_counterexample:
  "glob_to_regex ''?'' = Inr ''^.$'' \<and> re_match ''^.$'' [NEWLINE] = Some False \<and>
   glob_to_regex ''**'' = Inr ''^.*$'' \<and> re_match ''^.*$'' [NEWLINE, NEWLINE] = Some False"
  by (simp add: glob_to_regex_def tokenize_def SPECIAL_CHARS_def emit_def flush_def flushed_def
        re_match_def re_compile_def)

subsection \<open>The prefilter and the compiled regex\<close>

lemma component_agrees_intros:
  "component_agrees [] []"
  "CHR ''*'' \<in> set pc \<Longrightarrow> component_agrees pc mc"
  "component_agrees w w' \<Longrightarrow> component_agrees (c # w) (c # w')"
  by (auto simp: component_agrees_def)

lemma py_split_Cons: "\<exists>w ws. py_split sep s = w # ws"
  by (induction s) (auto split: list.splits)

lemma py_split_head: "py_split sep s = w # ws \<Longrightarrow> w = takeWhile (\<lambda>c. c \<noteq> sep) s"
proof (induction s arbitrary: w ws)
  case Nil
  then show ?case by simp
next
  case (Cons c cs)
  obtain w' ws' where w': "py_split sep cs = w' # ws'"
    using py_split_Cons by blast
  with Cons show ?case by (auto split: if_splits)
qed

lemma simple_item_simps:
  "simple_item (CHR ''*'') = Star (NotIn ''.'')"
  "c \<noteq> CHR ''*'' \<Longrightarrow> simple_item c = One (Lit c)"
  by (simp_all add: simple_item_def)

lemma py_split_free_prefix:
  "sep \<notin> set u \<Longrightarrow> py_split sep v = w # ws \<Longrightarrow> py_split sep (u @ v) = (u @ w) # ws"
  by (induction u) auto

lemma rmatch_simple_components:
  "rmatch (map simple_item p @ [Eol]) m \<Longrightarrow> m = [] \<or> last m \<noteq> NEWLINE \<Longrightarrow>
     list_all2 component_agrees (py_split (CHR ''.'') p) (py_split (CHR ''.'') m)"
proof (induction p arbitrary: m)
  case Nil
  then have "m = []" by auto
  then show ?case by (simp add: component_agrees_intros)
next
  case (Cons c cs)
  obtain w ws where w: "py_split (CHR ''.'') cs = w # ws"
    using py_split_Cons by blast
  show ?case
  proof (cases "c = CHR ''*''")
    case True
    from Cons.prems(1) True obtain u v where uv: "m = u @ v" "CHR ''.'' \<notin> set u"
      "rmatch (map simple_item cs @ [Eol]) v"
      by (auto simp: simple_item_simps rmatch_star list_all_not_in)
    have "v = [] \<or> last v \<noteq> NEWLINE" using Cons.prems(2) uv(1) by (cases v) auto
    from Cons.IH[OF uv(3) this] have ih: "list_all2 component_agrees (w # ws) (py_split (CHR ''.'') v)"
      by (simp add: w)
    then obtain w' ws' where w': "py_split (CHR ''.'') v = w' # ws'" "list_all2 component_agrees ws ws'"
      by (auto simp: list_all2_Cons1)
    show ?thesis
      using True w w' py_split_free_prefix[OF uv(2) w'(1)] uv(1)
      by (simp add: component_agrees_intros)
  next
    case nostar: False
    from Cons.prems(1) nostar obtain v where v: "m = c # v" "rmatch (map simple_item cs @ [Eol]) v"
      by (cases m) (auto simp: simple_item_simps)
    have "v = [] \<or> last v \<noteq> NEWLINE" using Cons.prems(2) v(1) by (cases v) auto
    from Cons.IH[OF v(2) this] have ih: "list_all2 component_agrees (w # ws) (py_split (CHR ''.'') v)"
      by (simp add: w)
    then obtain w' ws' where w': "py_split (CHR ''.'') v = w' # ws'"
      "component_agrees w w'" "list_all2 component_agrees ws ws'"
      by (auto simp: list_all2_Cons1)
    show ?thesis
    proof (cases "c = CHR ''.''")
      case True
      then show ?thesis using ih v(1) w by (simp add: component_agrees_intros)
    next
      case False
      then show ?thesis using w w' v(1) nostar by (auto simp: component_agrees_intros)
    qed
  qed
qed

lemma simple_pattern_no_globstar:
  "simple_pattern p \<Longrightarrow> ''**'' \<notin> set (py_split (CHR ''.'') p)"
proof (induction p)
  case Nil
  then show ?case by simp
next
  case (Cons c cs)
  obtain w ws where w: "py_split (CHR ''.'') cs = w # ws"
    using py_split_Cons by blast
  from Cons have ih: "''**'' \<notin> set (w # ws)" by (simp add: w)
  show ?case
  proof (cases "c = CHR ''.''")
    case True
    then show ?thesis using ih w by simp
  next
    case False
    have "c # w \<noteq> ''**''"
    proof
      assume eq: "c # w = ''**''"
      then have "c = CHR ''*''" "takeWhile (\<lambda>c. c \<noteq> CHR ''.'') cs = ''*''"
        using py_split_head[OF w] by auto
      then have "take 1 cs = ''*''" by (cases cs) (auto split: if_splits)
      with \<open>c = CHR ''*''\<close> Cons.prems show False by simp
    qed
    then show ?thesis using False ih w by auto
  qed
qed

lemma entries_match_append:
  "entries_match gc (xs @ ys) \<longleftrightarrow> entries_match gc xs \<and> entries_match gc ys"
  by (simp add: entries_match_def ball_Un)

lemma scan_components_no_globstar_plan:
  "''**'' \<notin> set comps \<Longrightarrow> \<not> truthy (globstar pl) \<Longrightarrow>
   entries_match (seen @ comps) (prefix_literals pl) \<Longrightarrow>
   entries_match (seen @ comps)
     (prefix_literals (scan_components n pl (enumerate (int (length seen)) comps))) \<and>
   suffix_literals (scan_components n pl (enumerate (int (length seen)) comps)) =
     suffix_literals pl"
proof (induction comps arbitrary: seen pl)
  case Nil
  then show ?case by simp
next
  case (Cons c cs)
  have idx: "int (length seen) + 1 = int (length (seen @ [c]))" by simp
  have split: "seen @ c # cs = (seen @ [c]) @ cs" by simp
  from Cons.prems have ns: "''**'' \<notin> set cs" "c \<noteq> ''**''" by auto
  show ?case
  proof (cases "is_graphite_glob c")
    case True
    show ?thesis
      using Cons.IH[of pl "seen @ [c]"] Cons.prems ns True
      unfolding split by (simp add: idx del: of_nat_Suc length_append)
  next
    case False
    let ?pl = "pl\<lparr>prefix_literals := prefix_literals pl @ [(int (length seen), c)]\<rparr>"
    have "entries_match ((seen @ [c]) @ cs) (prefix_literals ?pl)"
      using Cons.prems(3) False unfolding split
      by (simp add: entries_match_append) (simp add: entries_match_def nth_append)
    then show ?thesis
      using Cons.IH[of ?pl "seen @ [c]"] Cons.prems ns False
      unfolding split by (simp add: idx del: of_nat_Suc length_append)
  qed
qed

lemma check_literals_agree:
  "(\<forall>(i, v) \<in> set cs. 0 \<le> i \<and> nat i < length mc \<and> mc ! nat i = v) \<Longrightarrow>
     check_literals mc cs = Inr True"
  by (induction cs) (auto simp: py_index_def)

lemma prefilter_keeps_agreeing:
  assumes ns: "''**'' \<notin> set gc"
    and agree: "list_all2 component_agrees gc (py_split (CHR ''.'') m)"
  shows "maybe_matched_prefilter gc (glob_plan gc) m = Inr True"
proof -
  let ?mc = "py_split (CHR ''.'') m"
  have len: "length ?mc = length gc" using agree by (simp add: list_all2_lengthD)
  have plan: "entries_match gc (prefix_literals (glob_plan gc))"
    "suffix_literals (glob_plan gc) = []"
    using scan_components_no_globstar_plan[OF ns, of
        "\<lparr>globstar = None, prefix_literals = [], suffix_literals = []\<rparr>" "[]" "int (length gc)"]
    by (simp_all add: glob_plan_def truthy_def entries_match_def)
  have nt: "\<not> truthy (globstar (glob_plan gc))"
    using scan_components_no_globstar[OF ns] by (simp add: glob_plan_def truthy_def)
  have "\<forall>(i, v) \<in> set (prefix_literals (glob_plan gc)).
          0 \<le> i \<and> nat i < length ?mc \<and> ?mc ! nat i = v"
  proof (clarify)
    fix i v assume iv: "(i, v) \<in> set (prefix_literals (glob_plan gc))"
    with plan(1) have b: "0 \<le> i" "nat i < length gc" "gc ! nat i = v" "\<not> is_graphite_glob v"
      by (auto simp: entries_match_def)
    from b(4) have "CHR ''*'' \<notin> set v" by (auto simp: is_graphite_glob_iff)
    moreover have "component_agrees (gc ! nat i) (?mc ! nat i)"
      using agree b(2) by (simp add: list_all2_nthD)
    ultimately have "?mc ! nat i = v" using b(3) by (simp add: component_agrees_def)
    with b len show "0 \<le> i \<and> nat i < length ?mc \<and> ?mc ! nat i = v" by simp
  qed
  then have "check_literals ?mc (prefix_literals (glob_plan gc)) = Inr True"
    by (rule check_literals_agree)
  then show ?thesis
    using nt len plan(2) by (simp add: maybe_matched_prefilter_def Let_def)
qed

text \<open>
  Claim C1 on the code. The docstring of \<open>glob\<close> says that it filters out values
  guaranteed not to match and returns the names that may be matched. Two slips make it
  reject names that the compiled regex matches. For the pattern \<open>**.a\<close> the loop stores
  the index 0 in \<open>globstar\<close>, and both \<open>elif globstar\<close> and \<open>if globstar\<close> take 0 for no
  globstar: the name \<open>x.y.a\<close>, which the regex matches, is rejected because it has three
  components and the pattern two. For the pattern \<open>a.**.c\<close> the constraint recorded for
  \<open>c\<close> holds its distance from the end and is read as an index from the start: the
  name \<open>a.b.c\<close>, which the regex matches, is rejected.
\<close>

theorem C1_prefilter_false_negatives:
  "glob_to_regex ''**.a'' = Inr (''^.*'' @ [BACKSLASH] @ ''.a$'') \<and>
   re_match (''^.*'' @ [BACKSLASH] @ ''.a$'') ''x.y.a'' = Some True \<and>
   globstar (glob_plan (py_split (CHR ''.'') ''**.a'')) = Some 0 \<and>
   glob [''x.y.a''] ''**.a'' = Inr [] \<and>
   glob_to_regex ''a.**.c'' = Inr (''^a'' @ [BACKSLASH] @ ''..*'' @ [BACKSLASH] @ ''.c$'') \<and>
   re_match (''^a'' @ [BACKSLASH] @ ''..*'' @ [BACKSLASH] @ ''.c$'') ''a.b.c'' = Some True \<and>
   glob [''a.b.c''] ''a.**.c'' = Inr []"
  by (simp add: glob_to_regex_def tokenize_def SPECIAL_CHARS_def emit_def flush_def flushed_def
       re_match_def re_compile_def regex_special_def is_alnum_def
       glob_def glob_plan_def maybe_matched_prefilter_def truthy_def py_index_def
        is_graphite_glob_iff escape_char_def escape_special_def)

text \<open>
  A third way to a rejected match: \<open>?\<close> compiles to a dot, which matches the separator.
  The regex of \<open>a?b\<close> matches the name \<open>a.b\<close>, and the prefilter rejects it, since the
  name has two components and the pattern one.
\<close>

lemma wild_char_false_negative:
  "glob_to_regex ''a?b'' = Inr ''^a.b$'' \<and> re_match ''^a.b$'' ''a.b'' = Some True \<and>
   glob [''a.b''] ''a?b'' = Inr []"
  by (simp add: glob_to_regex_def tokenize_def SPECIAL_CHARS_def emit_def flush_def flushed_def
       re_match_def re_compile_def regex_special_def is_alnum_def
       glob_def glob_plan_def maybe_matched_prefilter_def truthy_def py_index_def
        is_graphite_glob_iff escape_char_def escape_special_def)

text \<open>
  Where the prefilter does keep every match. For every pattern made of literal
  characters, dots and single stars only and every list of candidate names, the
  prefilter runs to its end, and every candidate that the compiled regex matches and
  that does not end with a newline is in its output.
\<close>

lemma prefilter_sound_simple:
  "simple_pattern p \<Longrightarrow>
     \<exists>r kept. glob_to_regex p = Inr r \<and> glob names p = Inr kept \<and>
       (\<forall>m \<in> set names.
          re_match r m = Some True \<and> (m = [] \<or> last m \<noteq> NEWLINE) \<longrightarrow> m \<in> set kept)"
proof -
  assume sp: "simple_pattern p"
  let ?r = "''^'' @ concat (map simple_char_regex p) @ ''$''"
  let ?gc = "py_split (CHR ''.'') p"
  have r: "glob_to_regex p = Inr ?r" by (rule glob_to_regex_simple[OF sp])
  have "maybe_matched_prefilter ?gc (glob_plan ?gc) m = Inr True"
    if "re_match ?r m = Some True" "m = [] \<or> last m \<noteq> NEWLINE" for m
  proof -
    from that(1) have "rmatch (map simple_item p @ [Eol]) m"
      using re_compile_simple[of p] by (simp add: re_match_def)
    from rmatch_simple_components[OF this that(2)]
    show ?thesis by (rule prefilter_keeps_agreeing[OF simple_pattern_no_globstar[OF sp]])
  qed
  then show ?thesis
    unfolding glob_eq_filter r by auto
qed

lemma prefilter_sound_simple_example:
  "glob_to_regex ''a.*.c-d'' = Inr (''^a'' @ [BACKSLASH] @ ''.[^.]*'' @ [BACKSLASH] @ ''.c'' @ [BACKSLASH] @ ''-d$'') \<and>
   re_match (''^a'' @ [BACKSLASH] @ ''.[^.]*'' @ [BACKSLASH] @ ''.c'' @ [BACKSLASH] @ ''-d$'') ''a.xy.c-d'' = Some True \<and>
   glob [''a.b'', ''a.xy.c-d'', ''a.x.y.c-d''] ''a.*.c-d'' = Inr [''a.xy.c-d'']"
  using prefilter_sound_simple[of "''a.*.c-d''" "[''a.b'', ''a.xy.c-d'', ''a.x.y.c-d'']"]
  by (simp add: glob_to_regex_def tokenize_def SPECIAL_CHARS_def emit_def flush_def flushed_def
       re_match_def re_compile_def regex_special_def is_alnum_def
       glob_def glob_plan_def maybe_matched_prefilter_def truthy_def py_index_def
        is_graphite_glob_iff escape_char_def escape_special_def)

end
